theory Spec2Isabelle
  imports Complex_Main
begin

section \<open>Priority queues: the linked-list and the heap implementation\<close>

text \<open>
  The two headers \<^verbatim>\<open>Q1_pqueue_list.h\<close> and \<^verbatim>\<open>Q2_pqueue_heap.h\<close> each define a
  template class \<^verbatim>\<open>PriorityQueue\<close>. Both are embedded here; names of the list variant
  carry the prefix \<open>l\<close>, names of the heap variant the prefix \<open>h\<close>.

  Conventions of the embedding.
  \<^item> A priority is a \<^verbatim>\<open>double\<close> in the source, and the code only compares priorities
    (\<^verbatim>\<open><\<close>, \<^verbatim>\<open>>\<close>, \<^verbatim>\<open>>=\<close>, \<^verbatim>\<open>==\<close>). The type \<open>double\<close> below has the
    numbers, compared as the reals they denote, and NaN, for which every one of these
    comparisons is false, \<^verbatim>\<open>==\<close> with itself included. An infinite priority behaves as
    a number beyond the other priorities of a run.
  \<^item> \<^verbatim>\<open>size_t\<close> counters and indices are \<^typ>\<open>nat\<close>. An index never exceeds the number
    of stored cells, so no wrap-around is reachable; \<^verbatim>\<open>parent\<close> is only called behind
    the guard \<^verbatim>\<open>anchor!=0\<close>.
  \<^item> A method call that throws keeps the object alive, so every method returns an
    \<open>outcome\<close>: either a result with the state after the call, or the error with the state
    the object was left in. Modelled from the spec: \<^verbatim>\<open>error\<close> (\<^verbatim>\<open>error.h\<close> is not among
    the sources) raises; the failure of \<^verbatim>\<open>dequeue\<close> and \<^verbatim>\<open>peek\<close> on an empty queue is
    \<open>EmptyQueueError\<close>. Reading a field through \<^verbatim>\<open>NULL\<close> ends the call as a failure too.
\<close>

datatype error =
    EmptyQueueError      \<comment> \<open>\<^verbatim>\<open>error("dequeue: empty priority queue")\<close>, \<^verbatim>\<open>error("peek: ...")\<close>\<close>
  | VectorIndexError     \<comment> \<open>an index or \<^verbatim>\<open>removeBack\<close> refused by \<^verbatim>\<open>Vector\<close>\<close>
  | NullDereference      \<comment> \<open>a field read through a \<^verbatim>\<open>NULL\<close> cell pointer\<close>

datatype ('r, 's) outcome = Returns 'r 's | Raises error 's

datatype double = Num real | NaN

fun dlt :: "double \<Rightarrow> double \<Rightarrow> bool" where
  "dlt (Num x) (Num y) = (x < y)"
| "dlt _ _ = False"

fun dgt :: "double \<Rightarrow> double \<Rightarrow> bool" where
  "dgt (Num x) (Num y) = (x > y)"
| "dgt _ _ = False"

fun dge :: "double \<Rightarrow> double \<Rightarrow> bool" where
  "dge (Num x) (Num y) = (x \<ge> y)"
| "dge _ _ = False"

fun deq :: "double \<Rightarrow> double \<Rightarrow> bool" where
  "deq (Num x) (Num y) = (x = y)"
| "deq _ _ = False"

subsection \<open>The list implementation (\<^verbatim>\<open>Q1_pqueue_list.h\<close>)\<close>

text \<open>
  The cells reachable from \<^verbatim>\<open>head\<close> through \<^verbatim>\<open>link\<close> are the list \<open>chain\<close>, in link
  order; \<^verbatim>\<open>head==NULL\<close> is \<open>chain = []\<close>. The pointer \<^verbatim>\<open>tail\<close> is kept on the last cell
  of the chain by every method, and it is read as \<^term>\<open>last\<close> of the chain.
\<close>

record 'a lcell =
  ldata :: 'a
  lpriority :: double

record 'a lqueue =
  chain :: "'a lcell list"
  lcount :: nat

definition lempty :: "'a lqueue" where
  "lempty = \<lparr>chain = [], lcount = 0\<rparr>"

definition lsize :: "'a lqueue \<Rightarrow> nat" where
  "lsize q = lcount q"

definition lisEmpty :: "'a lqueue \<Rightarrow> bool" where
  "lisEmpty q = (lcount q = 0)"

text \<open>
  The last branch of \<^verbatim>\<open>enqueue\<close>: \<^verbatim>\<open>rank\<close> starts at the head and moves on while
  \<^verbatim>\<open>priority>=rank->link->priority\<close>; the new cell is chained in behind \<^verbatim>\<open>rank\<close>.
  The first list element is the cell \<^verbatim>\<open>rank\<close> points to. Reading
  \<^verbatim>\<open>rank->link->priority\<close> when \<^verbatim>\<open>rank->link\<close> is \<^verbatim>\<open>NULL\<close> gives \<open>None\<close>.
\<close>

fun lsplice :: "'a lcell \<Rightarrow> 'a lcell list \<Rightarrow> 'a lcell list option" where
  "lsplice cp (r # n # rest) =
     (if dge (lpriority cp) (lpriority n)
      then map_option (\<lambda>cs. r # cs) (lsplice cp (n # rest))
      else Some (r # cp # n # rest))"
| "lsplice cp [r] = None"
| "lsplice cp [] = None"

definition lenqueue :: "'a \<Rightarrow> double \<Rightarrow> 'a lqueue \<Rightarrow> (unit, 'a lqueue) outcome" where
  "lenqueue value priority q =
     (let cp = \<lparr>ldata = value, lpriority = priority\<rparr> in
      if chain q = [] then
        Returns () (q\<lparr>chain := [cp], lcount := lcount q + 1\<rparr>)
      else if dlt priority (lpriority (hd (chain q))) then
        Returns () (q\<lparr>chain := cp # chain q, lcount := lcount q + 1\<rparr>)
      else if dge priority (lpriority (last (chain q))) then
        Returns () (q\<lparr>chain := chain q @ [cp], lcount := lcount q + 1\<rparr>)
      else
        (case lsplice cp (chain q) of
           None \<Rightarrow> Raises NullDereference q
         | Some cs \<Rightarrow> Returns () (q\<lparr>chain := cs, lcount := lcount q + 1\<rparr>)))"

definition ldequeue :: "'a lqueue \<Rightarrow> ('a, 'a lqueue) outcome" where
  "ldequeue q =
     (if lisEmpty q then Raises EmptyQueueError q
      else
        (case chain q of
           [] \<Rightarrow> Raises NullDereference q
         | cp # rest \<Rightarrow> Returns (ldata cp) (q\<lparr>chain := rest, lcount := lcount q - 1\<rparr>)))"

definition lpeek :: "'a lqueue \<Rightarrow> ('a, 'a lqueue) outcome" where
  "lpeek q =
     (if lisEmpty q then Raises EmptyQueueError q
      else
        (case chain q of
           [] \<Rightarrow> Raises NullDereference q
         | cp # rest \<Rightarrow> Returns (ldata cp) q))"

text \<open>\<^verbatim>\<open>clear\<close>: \<^verbatim>\<open>while (count!=0) dequeue();\<close>\<close>

function lclear :: "'a lqueue \<Rightarrow> (unit, 'a lqueue) outcome" where
  "lclear q =
     (if lcount q \<noteq> 0 then
        (case ldequeue q of
           Raises e q' \<Rightarrow> Raises e q'
         | Returns v q' \<Rightarrow> lclear q')
      else Returns () q)"
  by pat_completeness auto
termination
  by (relation "measure lcount")
     (auto simp: ldequeue_def lisEmpty_def split: if_splits list.splits)

declare lclear.simps [simp del]

text \<open>
  \<^verbatim>\<open>deepCopy\<close> resets the receiver and enqueues every cell of the source chain in turn; it
  is only called on a receiver distinct from the source. \<open>lenqueue_cells\<close> is its loop.
\<close>

fun lenqueue_cells :: "'a lcell list \<Rightarrow> 'a lqueue \<Rightarrow> (unit, 'a lqueue) outcome" where
  "lenqueue_cells [] q = Returns () q"
| "lenqueue_cells (cp # cps) q =
     (case lenqueue (ldata cp) (lpriority cp) q of
        Raises e q' \<Rightarrow> Raises e q'
      | Returns u q' \<Rightarrow> lenqueue_cells cps q')"

definition deepCopy :: "'a lqueue \<Rightarrow> (unit, 'a lqueue) outcome" where
  "deepCopy src = lenqueue_cells (chain src) \<lparr>chain = [], lcount = 0\<rparr>"

text \<open>The copy constructor; the state of the outcome is the constructed queue.\<close>

definition lcopy :: "'a lqueue \<Rightarrow> (unit, 'a lqueue) outcome" where
  "lcopy src = deepCopy src"

text \<open>
  \<^verbatim>\<open>operator=\<close>. The test \<^verbatim>\<open>this!=&src\<close> compares addresses; \<open>same\<close> tells whether the
  receiver and the source are one object (then \<open>src\<close> is the receiver's own state). The
  result is \<^verbatim>\<open>*this\<close>, the receiver after the call.
\<close>

definition lassign :: "bool \<Rightarrow> 'a lqueue \<Rightarrow> 'a lqueue \<Rightarrow> ('a lqueue, 'a lqueue) outcome" where
  "lassign same this src =
     (if \<not> same then
        (case lclear this of
           Raises e this' \<Rightarrow> Raises e this'
         | Returns u this' \<Rightarrow>
             (case deepCopy src of
                Raises e this'' \<Rightarrow> Raises e this''
              | Returns u' this'' \<Rightarrow> Returns this'' this''))
      else Returns this this)"

text \<open>
  \<^verbatim>\<open>operator<<\<close>. The queue is passed by value and copied once more into \<^verbatim>\<open>tmp\<close>; the
  loop runs \<^verbatim>\<open>pqueue.size()\<close> times and writes each dequeued value followed by a blank.
  The state of the outcome is the text on the stream; \<open>render\<close> renders one value.
\<close>

fun lwrite_values :: "('a \<Rightarrow> string) \<Rightarrow> nat \<Rightarrow> 'a lqueue \<Rightarrow> string \<Rightarrow> (unit, string) outcome" where
  "lwrite_values render 0 tmp os = Returns () os"
| "lwrite_values render (Suc n) tmp os =
     (case ldequeue tmp of
        Raises e tmp' \<Rightarrow> Raises e os
      | Returns v tmp' \<Rightarrow> lwrite_values render n tmp' (os @ render v @ '' ''))"

definition ldisplay :: "('a \<Rightarrow> string) \<Rightarrow> string \<Rightarrow> 'a lqueue \<Rightarrow> (unit, string) outcome" where
  "ldisplay render os q =
     (case lcopy q of
        Raises e pqueue \<Rightarrow> Raises e os
      | Returns u pqueue \<Rightarrow>
          (case lcopy pqueue of
             Raises e tmp \<Rightarrow> Raises e os
           | Returns u' tmp \<Rightarrow>
               (case lwrite_values render (lsize pqueue) tmp os of
                  Raises e os' \<Rightarrow> Raises e os'
                | Returns u'' os' \<Rightarrow> Returns () (os' @ [CHR 0x0A]))))"

subsection \<open>The heap implementation (\<^verbatim>\<open>Q2_pqueue_heap.h\<close>)\<close>

text \<open>
  Modelled from the spec: the class \<^verbatim>\<open>Vector\<close> (\<^verbatim>\<open>vector.h\<close> is not among the
  sources), the "dynamically growing array" that owns the heap's cells. It is a list with
  value semantics: \<^verbatim>\<open>+=\<close> appends, assignment copies, and the index operator and
  \<^verbatim>\<open>removeBack\<close> refuse what is out of range, which \<open>None\<close> stands for.
\<close>

definition vget :: "'c list \<Rightarrow> nat \<Rightarrow> 'c option" where
  "vget xs i = (if i < length xs then Some (xs ! i) else None)"

definition removeBack :: "'c list \<Rightarrow> 'c list option" where
  "removeBack xs = (if xs = [] then None else Some (butlast xs))"

definition parent :: "nat \<Rightarrow> nat" where
  "parent n = (n - 1) div 2"

definition leftchild :: "nat \<Rightarrow> nat" where
  "leftchild n = 2 * n + 1"

definition rightchild :: "nat \<Rightarrow> nat" where
  "rightchild n = 2 * n + 2"

record 'a hcell =
  hdata :: 'a
  hpriority :: double
  hrank :: int

record 'a hqueue =
  pqueue :: "'a hcell list"
  hcount :: nat

definition hempty :: "'a hqueue" where
  "hempty = \<lparr>pqueue = [], hcount = 0\<rparr>"

definition hsize :: "'a hqueue \<Rightarrow> nat" where
  "hsize q = hcount q"

definition hisEmpty :: "'a hqueue \<Rightarrow> bool" where
  "hisEmpty q = (hcount q = 0)"

text \<open>
  The loop of \<^verbatim>\<open>enqueue\<close>: while the cell at \<^verbatim>\<open>anchor\<close> is not the root and its priority
  is less than its parent's, the two are exchanged.
\<close>

function sift_up :: "'a hcell list \<Rightarrow> nat \<Rightarrow> (unit, 'a hcell list) outcome" where
  "sift_up pq anchor =
     (if anchor \<noteq> 0 then
        (case (vget pq anchor, vget pq (parent anchor)) of
           (Some c, Some p) \<Rightarrow>
             if dlt (hpriority c) (hpriority p)
             then sift_up (pq[anchor := p, parent anchor := c]) (parent anchor)
             else Returns () pq
         | _ \<Rightarrow> Raises VectorIndexError pq)
      else Returns () pq)"
  by pat_completeness auto
termination
  by (relation "measure snd") (auto simp: parent_def)

declare sift_up.simps [simp del]

text \<open>
  \<^verbatim>\<open>enqueue\<close>. The rank of the new cell is the value \<^verbatim>\<open>clock()\<close> returns at the call; the
  processor time is not part of the queue, so it is the argument \<open>clock\<close>.
\<close>

definition henqueue :: "'a \<Rightarrow> double \<Rightarrow> int \<Rightarrow> 'a hqueue \<Rightarrow> (unit, 'a hqueue) outcome" where
  "henqueue value priority clock q =
     (let c = \<lparr>hdata = value, hpriority = priority, hrank = clock\<rparr>;
          pq = pqueue q @ [c]
      in case sift_up pq (hcount q) of
           Raises e pq' \<Rightarrow> Raises e (q\<lparr>pqueue := pq'\<rparr>)
         | Returns u pq' \<Rightarrow> Returns () (q\<lparr>pqueue := pq', hcount := hcount q + 1\<rparr>))"

text \<open>
  The loop of \<^verbatim>\<open>dequeue\<close> (lines 323 to 390). Every iteration that does not leave the
  loop reads the cells at \<^verbatim>\<open>anchor\<close>, \<^verbatim>\<open>leftchild(anchor)\<close> and \<^verbatim>\<open>rightchild(anchor)\<close>
  before it writes, and the first test already reads the first two; \<open>a\<close>, \<open>l\<close> and \<open>r\<close> are
  these three cells. The four \<^verbatim>\<open>break\<close> tests and the two branches that choose the child
  follow the source in order.
\<close>

function sift_down :: "'a hcell list \<Rightarrow> nat \<Rightarrow> nat \<Rightarrow> (unit, 'a hcell list) outcome" where
  "sift_down pq count anchor =
     (if count \<ge> 2 * anchor + 2 then
        (case (vget pq anchor, vget pq (leftchild anchor), vget pq (rightchild anchor)) of
           (Some a, Some l, Some r) \<Rightarrow>
             if dlt (hpriority a) (hpriority l) \<and> dlt (hpriority a) (hpriority r)
             then Returns () pq
             else if deq (hpriority a) (hpriority l) \<and> hrank a \<le> hrank l
                     \<and> dlt (hpriority a) (hpriority r) then Returns () pq
             else if dlt (hpriority a) (hpriority l) \<and> deq (hpriority a) (hpriority r)
                     \<and> hrank a \<le> hrank r then Returns () pq
             else if deq (hpriority a) (hpriority l) \<and> deq (hpriority a) (hpriority r)
                     \<and> hrank a \<le> hrank l \<and> hrank a \<le> hrank r then Returns () pq
             else if dgt (hpriority a) (hpriority l) \<or> dgt (hpriority a) (hpriority r) then
               (if dlt (hpriority l) (hpriority r) then
                  sift_down (pq[anchor := l, leftchild anchor := a]) count (leftchild anchor)
                else if dgt (hpriority l) (hpriority r) then
                  sift_down (pq[anchor := r, rightchild anchor := a]) count (rightchild anchor)
                else if hrank l < hrank r then
                  sift_down (pq[anchor := l, leftchild anchor := a]) count (leftchild anchor)
                else
                  sift_down (pq[anchor := r, rightchild anchor := a]) count (rightchild anchor))
             else
               (if hrank l < hrank r then
                  sift_down (pq[anchor := l, leftchild anchor := a]) count (leftchild anchor)
                else
                  sift_down (pq[anchor := r, rightchild anchor := a]) count (rightchild anchor))
         | _ \<Rightarrow> Raises VectorIndexError pq)
      else Returns () pq)"
  by pat_completeness auto
termination
  by (relation "measure (\<lambda>(pq, count, anchor). count - anchor)")
     (auto simp: leftchild_def rightchild_def)

declare sift_down.simps [simp del]

text \<open>
  Lines 315 to 322 of \<^verbatim>\<open>dequeue\<close>, reached with \<^verbatim>\<open>count\<close> at least 2: the last cell is
  moved to the root, the array shrinks by one, and when the decremented count is even a
  copy of the root is appended. The result is the flag \<^verbatim>\<open>completed\<close>.
\<close>

definition move_last_to_root :: "'a hqueue \<Rightarrow> (bool, 'a hqueue) outcome" where
  "move_last_to_root q =
     (let count = hcount q - 1 in
      case vget (pqueue q) count of
        None \<Rightarrow> Raises VectorIndexError (q\<lparr>hcount := count\<rparr>)
      | Some c \<Rightarrow>
          (case removeBack ((pqueue q)[0 := c]) of
             None \<Rightarrow> Raises VectorIndexError (q\<lparr>hcount := count\<rparr>)
           | Some pq \<Rightarrow>
               if count mod 2 = 0 then
                 (case vget pq 0 of
                    None \<Rightarrow> Raises VectorIndexError \<lparr>pqueue = pq, hcount = count\<rparr>
                  | Some c0 \<Rightarrow> Returns True \<lparr>pqueue = pq @ [c0], hcount = count + 1\<rparr>)
               else Returns False \<lparr>pqueue = pq, hcount = count\<rparr>))"

definition hdequeue :: "'a hqueue \<Rightarrow> ('a, 'a hqueue) outcome" where
  "hdequeue q =
     (if hisEmpty q then Raises EmptyQueueError q
      else
        (case vget (pqueue q) 0 of
           None \<Rightarrow> Raises VectorIndexError q
         | Some c0 \<Rightarrow>
             let result = hdata c0 in
             if hcount q = 1 then
               (case removeBack (pqueue q) of
                  None \<Rightarrow> Raises VectorIndexError q
                | Some pq \<Rightarrow> Returns result \<lparr>pqueue = pq, hcount = hcount q - 1\<rparr>)
             else
               (case move_last_to_root q of
                  Raises e q1 \<Rightarrow> Raises e q1
                | Returns completed q1 \<Rightarrow>
                    (case sift_down (pqueue q1) (hcount q1) 0 of
                       Raises e pq2 \<Rightarrow> Raises e (q1\<lparr>pqueue := pq2\<rparr>)
                     | Returns u pq2 \<Rightarrow>
                         if completed then
                           (case removeBack pq2 of
                              None \<Rightarrow> Raises VectorIndexError (q1\<lparr>pqueue := pq2\<rparr>)
                            | Some pq3 \<Rightarrow>
                                Returns result \<lparr>pqueue = pq3, hcount = hcount q1 - 1\<rparr>)
                         else Returns result (q1\<lparr>pqueue := pq2\<rparr>)))))"

definition hpeek :: "'a hqueue \<Rightarrow> ('a, 'a hqueue) outcome" where
  "hpeek q =
     (if hisEmpty q then Raises EmptyQueueError q
      else
        (case vget (pqueue q) 0 of
           None \<Rightarrow> Raises VectorIndexError q
         | Some c0 \<Rightarrow> Returns (hdata c0) q))"

text \<open>The copy constructor copies the array and the count.\<close>

definition hcopy :: "'a hqueue \<Rightarrow> 'a hqueue" where
  "hcopy src = \<lparr>pqueue = pqueue src, hcount = hcount src\<rparr>"

text \<open>
  \<^verbatim>\<open>operator=\<close> copies the array and the count into the receiver. Its body ends without
  a \<^verbatim>\<open>return\<close> statement, so the reference it hands back is not determined by the code:
  the first component, the result, is \<open>None\<close>; the second is the receiver after the call.
\<close>

definition hassign :: "'a hqueue \<Rightarrow> 'a hqueue \<Rightarrow> 'a hqueue option \<times> 'a hqueue" where
  "hassign this src = (None, this\<lparr>pqueue := pqueue src, hcount := hcount src\<rparr>)"

fun hwrite_values :: "('a \<Rightarrow> string) \<Rightarrow> nat \<Rightarrow> 'a hqueue \<Rightarrow> string \<Rightarrow> (unit, string) outcome" where
  "hwrite_values render 0 tmp os = Returns () os"
| "hwrite_values render (Suc n) tmp os =
     (case hdequeue tmp of
        Raises e tmp' \<Rightarrow> Raises e os
      | Returns v tmp' \<Rightarrow> hwrite_values render n tmp' (os @ render v @ '' ''))"

text \<open>\<^verbatim>\<open>operator<<\<close> of the heap header, written as the one of the list header.\<close>

definition hdisplay :: "('a \<Rightarrow> string) \<Rightarrow> string \<Rightarrow> 'a hqueue \<Rightarrow> (unit, string) outcome" where
  "hdisplay render os q =
     (let pqueue = hcopy q; tmp = hcopy pqueue in
      case hwrite_values render (hsize pqueue) tmp os of
        Raises e os' \<Rightarrow> Raises e os'
      | Returns u os' \<Rightarrow> Returns () (os' @ [CHR 0x0A]))"

subsection \<open>Clients: sequences of calls\<close>

text \<open>
  A client that enqueues a list of entries in order, and one that drains a queue with
  \<^verbatim>\<open>while (!q.isEmpty()) q.dequeue()\<close>, collecting the values returned. An entry of
  the heap carries the clock reading of its call.
\<close>

fun lenqueue_all :: "('a \<times> double) list \<Rightarrow> 'a lqueue \<Rightarrow> (unit, 'a lqueue) outcome" where
  "lenqueue_all [] q = Returns () q"
| "lenqueue_all ((v, p) # es) q =
     (case lenqueue v p q of
        Raises e q' \<Rightarrow> Raises e q'
      | Returns u q' \<Rightarrow> lenqueue_all es q')"

fun henqueue_all :: "('a \<times> double \<times> int) list \<Rightarrow> 'a hqueue \<Rightarrow> (unit, 'a hqueue) outcome" where
  "henqueue_all [] q = Returns () q"
| "henqueue_all ((v, p, t) # es) q =
     (case henqueue v p t q of
        Raises e q' \<Rightarrow> Raises e q'
      | Returns u q' \<Rightarrow> henqueue_all es q')"

function ldrain :: "'a lqueue \<Rightarrow> ('a list, 'a lqueue) outcome" where
  "ldrain q =
     (if lisEmpty q then Returns [] q
      else
        (case ldequeue q of
           Raises e q' \<Rightarrow> Raises e q'
         | Returns v q' \<Rightarrow>
             (case ldrain q' of
                Raises e q'' \<Rightarrow> Raises e q''
              | Returns vs q'' \<Rightarrow> Returns (v # vs) q'')))"
  by pat_completeness auto
termination
  by (relation "measure lcount")
     (auto simp: ldequeue_def lisEmpty_def split: if_splits list.splits)

declare ldrain.simps [simp del]

function hdrain :: "'a hqueue \<Rightarrow> ('a list, 'a hqueue) outcome" where
  "hdrain q =
     (if hisEmpty q then Returns [] q
      else
        (case hdequeue q of
           Raises e q' \<Rightarrow> Raises e q'
         | Returns v q' \<Rightarrow>
             (case hdrain q' of
                Raises e q'' \<Rightarrow> Raises e q''
              | Returns vs q'' \<Rightarrow> Returns (v # vs) q'')))"
  by pat_completeness auto
termination
  by (relation "measure hcount")
     (auto simp: hdequeue_def hisEmpty_def move_last_to_root_def Let_def
           split: if_splits option.splits outcome.splits)

declare hdrain.simps [simp del]

definition ldrain_after :: "('a \<times> double) list \<Rightarrow> ('a list, 'a lqueue) outcome" where
  "ldrain_after es =
     (case lenqueue_all es lempty of
        Raises e q \<Rightarrow> Raises e q
      | Returns u q \<Rightarrow> ldrain q)"

definition hdrain_after :: "('a \<times> double \<times> int) list \<Rightarrow> ('a list, 'a hqueue) outcome" where
  "hdrain_after es =
     (case henqueue_all es hempty of
        Raises e q \<Rightarrow> Raises e q
      | Returns u q \<Rightarrow> hdrain q)"

text \<open>
  The queues a client can hold: a constructed one, and what the public operations that
  change or build a queue leave when they return.
\<close>

inductive lreachable :: "'a lqueue \<Rightarrow> bool" where
  constructed: "lreachable lempty"
| enqueued: "lreachable q \<Longrightarrow> lenqueue v p q = Returns () q' \<Longrightarrow> lreachable q'"
| dequeued: "lreachable q \<Longrightarrow> ldequeue q = Returns v q' \<Longrightarrow> lreachable q'"
| cleared: "lreachable q \<Longrightarrow> lclear q = Returns () q' \<Longrightarrow> lreachable q'"
| copied: "lreachable src \<Longrightarrow> lcopy src = Returns () q' \<Longrightarrow> lreachable q'"
| assigned: "lreachable q \<Longrightarrow> lreachable src \<Longrightarrow> lassign same q src = Returns r q' \<Longrightarrow>
    lreachable q'"

inductive hreachable :: "'a hqueue \<Rightarrow> bool" where
  constructed: "hreachable hempty"
| enqueued: "hreachable q \<Longrightarrow> henqueue v p t q = Returns () q' \<Longrightarrow> hreachable q'"
| dequeued: "hreachable q \<Longrightarrow> hdequeue q = Returns v q' \<Longrightarrow> hreachable q'"
| copied: "hreachable src \<Longrightarrow> hreachable (hcopy src)"
| assigned: "hreachable q \<Longrightarrow> hreachable src \<Longrightarrow> hreachable (snd (hassign q src))"

subsection \<open>The notions of the specification\<close>

text \<open>
  The tie-break ordering of two heap cells, and the heap-order invariant over the array:
  every node whose two children are present is not greater than either child.
\<close>

definition not_greater :: "'a hcell \<Rightarrow> 'a hcell \<Rightarrow> bool" where
  "not_greater a b =
     (dlt (hpriority a) (hpriority b)
      \<or> (deq (hpriority a) (hpriority b) \<and> hrank a \<le> hrank b))"

definition heap_ordered :: "'a hcell list \<Rightarrow> bool" where
  "heap_ordered pq =
     list_all
       (\<lambda>i. not_greater (pq ! i) (pq ! leftchild i) \<and> not_greater (pq ! i) (pq ! rightchild i))
       (filter (\<lambda>i. rightchild i < length pq) [0..<length pq])"

text \<open>
  The real number a priority denotes when it is not NaN, and the chains and entry lists
  none of whose priorities is NaN.
\<close>

fun number :: "double \<Rightarrow> real" where
  "number (Num x) = x"
| "number NaN = 0"

abbreviation lkey :: "'a lcell \<Rightarrow> real" where
  "lkey c \<equiv> number (lpriority c)"

definition lnumbers :: "'a lcell list \<Rightarrow> bool" where
  "lnumbers cs = list_all (\<lambda>c. lpriority c \<noteq> NaN) cs"

definition numbers :: "('a \<times> double) list \<Rightarrow> bool" where
  "numbers es = list_all (\<lambda>e. snd e \<noteq> NaN) es"

text \<open>The public members the two class declarations list, in the order of the headers.\<close>

definition list_methods :: "string list" where
  "list_methods =
     [''PriorityQueue'', ''~PriorityQueue'', ''size'', ''isEmpty'', ''clear'', ''enqueue'',
      ''dequeue'', ''peek'', ''PriorityQueue(const PriorityQueue &)'', ''operator='']"

definition heap_methods :: "string list" where
  "heap_methods =
     [''PriorityQueue'', ''~PriorityQueue'', ''size'', ''isEmpty'', ''enqueue'',
      ''dequeue'', ''peek'', ''PriorityQueue(const PriorityQueue &)'', ''operator='']"

section \<open>The list implementation\<close>

subsection \<open>When a call returns\<close>

text \<open>
  The walk of \<^verbatim>\<open>enqueue\<close> passes the cells behind the head that the new priority is
  \<^verbatim>\<open>>=\<close> to and chains the new cell in before the first cell it is not; it reads
  through \<^verbatim>\<open>NULL\<close> exactly when there is no such cell. Among numbers the branch that
  walks is only taken when the last cell has a greater priority, so \<^verbatim>\<open>enqueue\<close> returns.
\<close>

lemma lcell_eta: "\<lparr>ldata = ldata c, lpriority = lpriority c\<rparr> = (c :: 'a lcell)"
  by (cases c) simp

lemma dge_number: "a \<noteq> NaN \<Longrightarrow> b \<noteq> NaN \<Longrightarrow> dge a b = (number b \<le> number a)"
  by (cases a; cases b) simp_all

lemma dlt_number: "a \<noteq> NaN \<Longrightarrow> b \<noteq> NaN \<Longrightarrow> dlt a b = (number a < number b)"
  by (cases a; cases b) simp_all

lemma lsplice_walk:
  "lsplice cp (r # rest) =
     (if dropWhile (\<lambda>n. dge (lpriority cp) (lpriority n)) rest = [] then None
      else Some (r # takeWhile (\<lambda>n. dge (lpriority cp) (lpriority n)) rest
                   @ cp # dropWhile (\<lambda>n. dge (lpriority cp) (lpriority n)) rest))"
  by (induction rest arbitrary: r) auto

lemma lsplice_length:
  "lsplice cp cs = Some cs' \<Longrightarrow> length cs' = Suc (length cs)"
  by (induction cp cs arbitrary: cs' rule: lsplice.induct) (auto split: if_splits)

lemma dropWhile_last:
  "cs \<noteq> [] \<Longrightarrow> \<not> P (last cs) \<Longrightarrow> dropWhile P cs \<noteq> []"
  by (induction cs) (auto split: if_splits)

lemma lenqueue_outcome:
  "lenqueue v p q = Raises NullDereference q
   \<or> (\<exists>q'. lenqueue v p q = Returns () q'
         \<and> length (chain q') = Suc (length (chain q)) \<and> lcount q' = Suc (lcount q))"
  by (auto simp: lenqueue_def Let_def split: option.splits dest: lsplice_length)

lemma lenqueue_returns:
  assumes "p \<noteq> NaN" and "lnumbers (chain q)"
  shows "\<exists>q'. lenqueue v p q = Returns () q'
      \<and> length (chain q') = Suc (length (chain q)) \<and> lcount q' = Suc (lcount q)
      \<and> lnumbers (chain q')"
proof (cases "chain q")
  case Nil
  with assms show ?thesis by (simp add: lenqueue_def lnumbers_def)
next
  case (Cons r rest)
  let ?P = "\<lambda>n. dge p (lpriority n)"
  show ?thesis
  proof (cases "dlt p (lpriority r) \<or> dge p (lpriority (last (chain q)))")
    case True
    with Cons assms show ?thesis by (auto simp: lenqueue_def Let_def lnumbers_def)
  next
    case False
    have "rest \<noteq> []"
    proof
      assume "rest = []"
      with Cons False assms have "\<not> number p < number (lpriority r)"
        "\<not> number (lpriority r) \<le> number p"
        by (simp_all add: lnumbers_def dlt_number dge_number)
      then show False by simp
    qed
    with Cons False have "\<not> ?P (last rest)" by simp
    from dropWhile_last [of rest ?P, OF \<open>rest \<noteq> []\<close> this]
    have "lsplice \<lparr>ldata = v, lpriority = p\<rparr> (chain q)
        = Some (r # takeWhile ?P rest @ \<lparr>ldata = v, lpriority = p\<rparr> # dropWhile ?P rest)"
      using Cons by (simp add: lsplice_walk)
    moreover have "length (takeWhile ?P rest) + length (dropWhile ?P rest) = length rest"
      by (metis length_append takeWhile_dropWhile_id)
    moreover have "set (takeWhile ?P rest) \<union> set (dropWhile ?P rest) = set rest"
      by (metis set_append takeWhile_dropWhile_id)
    then have "lnumbers (r # takeWhile ?P rest @ \<lparr>ldata = v, lpriority = p\<rparr> # dropWhile ?P rest)"
      using assms Cons by (auto simp: lnumbers_def list_all_iff)
    ultimately show ?thesis
      using Cons False by (simp add: lenqueue_def Let_def)
  qed
qed

lemma ldequeue_returns:
  assumes "lcount q = length (chain q)" and "lcount q \<noteq> 0"
  shows "ldequeue q = Returns (ldata (hd (chain q))) \<lparr>chain = tl (chain q), lcount = lcount q - 1\<rparr>"
  using assms by (cases "chain q") (simp_all add: ldequeue_def lisEmpty_def)

lemma lpeek_returns:
  "lcount q = length (chain q) \<Longrightarrow> lcount q \<noteq> 0 \<Longrightarrow>
   lpeek q = Returns (ldata (hd (chain q))) q"
  by (cases "chain q") (simp_all add: lpeek_def lisEmpty_def)

lemma lclear_returns:
  "lcount q = length (chain q) \<Longrightarrow> lclear q = Returns () \<lparr>chain = [], lcount = 0\<rparr>"
proof (induction "chain q" arbitrary: q)
  case Nil
  then show ?case by (subst lclear.simps) simp
next
  case (Cons c cs)
  let ?q' = "\<lparr>chain = tl (chain q), lcount = lcount q - 1\<rparr>"
  from Cons.hyps(2) Cons.prems have n: "lcount q \<noteq> 0" by auto
  have "lclear ?q' = Returns () \<lparr>chain = [], lcount = 0\<rparr>"
    using Cons.hyps(1) [of ?q'] Cons.hyps(2) [symmetric] Cons.prems by simp
  then show ?case
    using n ldequeue_returns [OF Cons.prems n] by (subst lclear.simps) simp
qed

lemma lenqueue_cells_count:
  "lenqueue_cells cs q = Returns () q' \<Longrightarrow> lcount q = length (chain q) \<Longrightarrow>
   lcount q' = length (chain q')"
proof (induction cs arbitrary: q)
  case Nil
  then show ?case by simp
next
  case (Cons c cs)
  from lenqueue_outcome [of "ldata c" "lpriority c" q] Cons.prems(1) obtain q1 where
    "lenqueue (ldata c) (lpriority c) q = Returns () q1"
    "length (chain q1) = Suc (length (chain q))" "lcount q1 = Suc (lcount q)"
    by auto
  with Cons show ?case by auto
qed

lemma lwrite_values_text:
  "lcount tmp = length (chain tmp) \<Longrightarrow> n \<le> lcount tmp \<Longrightarrow>
   lwrite_values render n tmp os
     = Returns () (os @ concat (map (\<lambda>c. render (ldata c) @ '' '') (take n (chain tmp))))"
proof (induction n arbitrary: tmp os)
  case 0
  then show ?case by simp
next
  case (Suc n)
  from Suc.prems have ne: "lcount tmp \<noteq> 0" by auto
  then obtain c cs where cs: "chain tmp = c # cs" using Suc.prems(1) by (cases "chain tmp") auto
  let ?t = "\<lparr>chain = tl (chain tmp), lcount = lcount tmp - 1\<rparr>"
  have "lcount ?t = length (chain ?t)" "n \<le> lcount ?t"
    using Suc.prems by simp_all
  from Suc.IH [OF this] cs show ?case
    by (simp add: ldequeue_returns [OF Suc.prems(1) ne])
qed

lemma lenqueue_cells_returns:
  "lnumbers cs \<Longrightarrow> lnumbers (chain q) \<Longrightarrow>
   \<exists>q'. lenqueue_cells cs q = Returns () q'
      \<and> length (chain q') = length (chain q) + length cs \<and> lcount q' = lcount q + length cs
      \<and> lnumbers (chain q')"
proof (induction cs arbitrary: q)
  case Nil
  then show ?case by simp
next
  case (Cons c cs)
  then have c: "lpriority c \<noteq> NaN" and cs: "lnumbers cs" by (simp_all add: lnumbers_def)
  from lenqueue_returns [OF c Cons.prems(2), of "ldata c"] obtain q1 where
    q1: "lenqueue (ldata c) (lpriority c) q = Returns () q1"
      "length (chain q1) = Suc (length (chain q))" "lcount q1 = Suc (lcount q)"
      "lnumbers (chain q1)" by blast
  with Cons.IH [OF cs q1(4)] show ?case by auto
qed

lemma deepCopy_returns:
  "lnumbers (chain src) \<Longrightarrow>
   \<exists>q'. deepCopy src = Returns () q'
      \<and> lcount q' = length (chain q') \<and> lcount q' = length (chain src) \<and> lnumbers (chain q')"
  using lenqueue_cells_returns [of "chain src" "\<lparr>chain = [], lcount = 0\<rparr>"]
  by (auto simp: deepCopy_def lnumbers_def)

lemma ldisplay_returns:
  assumes "lnumbers (chain q)"
  shows "\<exists>os'. ldisplay render os q = Returns () os'"
proof -
  from deepCopy_returns [OF assms] obtain a where
    a: "deepCopy q = Returns () a" "lcount a = length (chain a)" "lnumbers (chain a)" by blast
  from deepCopy_returns [OF a(3)] obtain b where
    b: "deepCopy a = Returns () b" "lcount b = length (chain b)" "lcount b = length (chain a)"
    by blast
  from lwrite_values_text [of b "lsize a" render os] a b
  have "\<exists>os'. lwrite_values render (lsize a) b os = Returns () os'"
    by (simp add: lsize_def)
  with a b show ?thesis by (auto simp: ldisplay_def lcopy_def)
qed

lemma lassign_returns:
  "lcount this = length (chain this) \<Longrightarrow> lnumbers (chain src) \<Longrightarrow>
   \<exists>q'. lassign same this src = Returns q' q'"
  using deepCopy_returns [of src] by (auto simp: lassign_def lclear_returns)

subsection \<open>The order of the chain\<close>

text \<open>
  On a chain of numbers sorted by priority, \<^verbatim>\<open>enqueue\<close> of a number keeps the chain
  sorted and puts the new cell behind the cells of its own priority; \<^verbatim>\<open>dequeue\<close> takes
  the first cell, one of least priority. So the cells of any one priority leave in the
  order they came, whatever the interleaving of the two calls.
\<close>

lemma sorted_le_last:
  "sorted (map f cs) \<Longrightarrow> n \<in> set cs \<Longrightarrow> f n \<le> f (last cs)"
  by (induction cs) auto

lemma lenqueue_sorted:
  assumes "p \<noteq> NaN" and "lnumbers (chain q)" and "sorted (map lkey (chain q))"
  shows "lenqueue v p q =
           Returns ()
             \<lparr>chain = takeWhile (\<lambda>n. lkey n \<le> number p) (chain q)
                       @ \<lparr>ldata = v, lpriority = p\<rparr> # dropWhile (\<lambda>n. lkey n \<le> number p) (chain q),
              lcount = Suc (lcount q)\<rparr>"
proof (cases "chain q")
  case Nil
  then show ?thesis by (simp add: lenqueue_def)
next
  case (Cons r rest)
  let ?P = "\<lambda>n. dge p (lpriority n)"
  let ?K = "\<lambda>n. lkey n \<le> number p"
  let ?c = "\<lparr>ldata = v, lpriority = p\<rparr>"
  have PK: "?P n = ?K n" if "n \<in> set (chain q)" for n
    using that assms(1,2) by (simp add: lnumbers_def list_all_iff dge_number)
  have r: "dlt p (lpriority r) = (number p < lkey r)"
    using assms(1,2) Cons by (simp add: lnumbers_def dlt_number)
  have l: "dge p (lpriority (last (chain q))) = ?K (last (chain q))"
    using PK [of "last (chain q)"] Cons by simp
  have tw: "takeWhile ?P rest = takeWhile ?K rest" "dropWhile ?P rest = dropWhile ?K rest"
    using PK Cons by (auto intro: takeWhile_cong dropWhile_cong)
  consider (b) "number p < lkey r" | (c) "\<not> number p < lkey r" "?K (last (chain q))"
    | (d) "\<not> number p < lkey r" "\<not> ?K (last (chain q))" by blast
  then show ?thesis
  proof cases
    case b
    with Cons r show ?thesis by (simp add: lenqueue_def Let_def)
  next
    case c
    have "\<forall>n \<in> set (chain q). lkey n \<le> lkey (last (chain q))"
      using assms(3) sorted_le_last [of lkey "chain q"] by blast
    with c have "\<forall>n \<in> set (chain q). ?K n" by auto
    then have t: "takeWhile ?K (chain q) @ ?c # dropWhile ?K (chain q) = chain q @ [?c]"
      by simp
    show ?thesis
      unfolding t using c Cons r l by (simp add: lenqueue_def Let_def)
  next
    case d
    with Cons have rest: "rest \<noteq> []" "\<not> ?K (last rest)"
      by (auto split: if_splits)
    from dropWhile_last [of rest ?K, OF rest] have "dropWhile ?K rest \<noteq> []" .
    then have "lsplice ?c (chain q) = Some (r # takeWhile ?K rest @ ?c # dropWhile ?K rest)"
      using Cons tw by (simp add: lsplice_walk)
    with Cons d r l show ?thesis by (simp add: lenqueue_def Let_def)
  qed
qed

lemma dropWhile_sorted_greater:
  fixes f :: "'b \<Rightarrow> real"
  shows "sorted (map f cs) \<Longrightarrow> n \<in> set (dropWhile (\<lambda>n. f n \<le> p) cs) \<Longrightarrow> p < f n"
  by (induction cs) (auto split: if_splits)

lemma place_sorted:
  fixes f :: "'b \<Rightarrow> real"
  shows "sorted (map f cs) \<Longrightarrow>
   sorted (map f (takeWhile (\<lambda>n. f n \<le> f c) cs @ c # dropWhile (\<lambda>n. f n \<le> f c) cs))"
  by (induction cs) (auto split: if_splits dest: set_takeWhileD set_dropWhileD)

lemma place_filter:
  fixes f :: "'b \<Rightarrow> real"
  assumes "sorted (map f cs)"
  shows "filter (\<lambda>n. f n = k)
           (takeWhile (\<lambda>n. f n \<le> f c) cs @ c # dropWhile (\<lambda>n. f n \<le> f c) cs)
         = filter (\<lambda>n. f n = k) cs @ (if f c = k then [c] else [])"
proof -
  let ?P = "\<lambda>n. f n \<le> f c"
  have split: "filter (\<lambda>n. f n = k) cs
      = filter (\<lambda>n. f n = k) (takeWhile ?P cs) @ filter (\<lambda>n. f n = k) (dropWhile ?P cs)"
    by (metis filter_append takeWhile_dropWhile_id)
  have "filter (\<lambda>n. f n = k) (dropWhile ?P cs) = []" if "f c = k"
    using dropWhile_sorted_greater [OF assms, of _ "f c"] that
    by (fastforce simp: filter_empty_conv)
  with split show ?thesis by auto
qed

lemma lenqueue_order:
  assumes "p \<noteq> NaN" and "lnumbers (chain q)" and "sorted (map lkey (chain q))"
    and "lcount q = length (chain q)"
  shows "\<exists>q'. lenqueue v p q = Returns () q'
      \<and> lnumbers (chain q')
      \<and> sorted (map lkey (chain q'))
      \<and> lcount q' = length (chain q')
      \<and> (\<forall>k. filter (\<lambda>n. lkey n = k) (chain q')
             = filter (\<lambda>n. lkey n = k) (chain q)
               @ (if number p = k then [\<lparr>ldata = v, lpriority = p\<rparr>] else []))"
proof -
  let ?c = "\<lparr>ldata = v, lpriority = p\<rparr>"
  let ?K = "\<lambda>n. lkey n \<le> number p"
  let ?cs = "takeWhile ?K (chain q) @ ?c # dropWhile ?K (chain q)"
  have l: "length ?cs = Suc (length (chain q))"
    by (metis length_Cons length_append add_Suc_right takeWhile_dropWhile_id)
  have "set ?cs = insert ?c (set (chain q))"
    by (metis Un_insert_right list.simps(15) set_append takeWhile_dropWhile_id)
  with assms(1,2) have n: "lnumbers ?cs"
    by (simp add: lnumbers_def list_all_iff)
  show ?thesis
    using lenqueue_sorted [OF assms(1-3), of v] place_sorted [OF assms(3), of ?c]
      place_filter [OF assms(3), of _ ?c] l n assms(4)
    by simp
qed

lemma ldequeue_order:
  assumes "sorted (map lkey (chain q))" and "lcount q = length (chain q)"
    and "lcount q \<noteq> 0"
  shows "\<exists>c q'. ldequeue q = Returns (ldata c) q'
      \<and> chain q = c # chain q'
      \<and> (\<forall>n \<in> set (chain q). lkey c \<le> lkey n)
      \<and> sorted (map lkey (chain q'))
      \<and> lcount q' = length (chain q')"
proof -
  from assms obtain c rest where cs: "chain q = c # rest" by (cases "chain q") auto
  with assms show ?thesis
    by (auto simp: ldequeue_returns [OF assms(2,3)])
qed

lemma ldrain_returns:
  "lcount q = length (chain q) \<Longrightarrow>
   ldrain q = Returns (map ldata (chain q)) \<lparr>chain = [], lcount = 0\<rparr>"
proof (induction "chain q" arbitrary: q)
  case Nil
  then show ?case by (subst ldrain.simps) (simp add: lisEmpty_def)
next
  case (Cons c cs)
  let ?q' = "\<lparr>chain = tl (chain q), lcount = lcount q - 1\<rparr>"
  from Cons.hyps(2) Cons.prems have n: "lcount q \<noteq> 0" by auto
  have "ldrain ?q' = Returns (map ldata (chain ?q')) \<lparr>chain = [], lcount = 0\<rparr>"
    using Cons.hyps(1) [of ?q'] Cons.hyps(2) [symmetric] Cons.prems by simp
  then show ?case
    using n Cons.hyps(2) [symmetric]
    by (subst ldrain.simps) (simp add: lisEmpty_def ldequeue_returns [OF Cons.prems n])
qed

text \<open>
  Enqueueing a list of entries with number priorities into the empty queue and draining
  it returns the values in the order of the stable sort of the entries by priority.
\<close>

lemma insort_place_commute:
  fixes f :: "'b \<Rightarrow> real"
  shows "sorted (map f cs) \<Longrightarrow>
    insort_key f y (takeWhile (\<lambda>n. f n \<le> f x) cs @ x # dropWhile (\<lambda>n. f n \<le> f x) cs)
    = takeWhile (\<lambda>n. f n \<le> f x) (insort_key f y cs)
      @ x # dropWhile (\<lambda>n. f n \<le> f x) (insort_key f y cs)"
  by (induction cs) auto

lemma sort_key_snoc:
  fixes f :: "'b \<Rightarrow> real"
  shows "sort_key f (xs @ [x])
    = takeWhile (\<lambda>n. f n \<le> f x) (sort_key f xs) @ x # dropWhile (\<lambda>n. f n \<le> f x) (sort_key f xs)"
  by (induction xs) (simp_all add: insort_place_commute)

lemma lenqueue_all_sorted:
  assumes "numbers es0" and "numbers es"
    and "chain q = map (\<lambda>(v, p). \<lparr>ldata = v, lpriority = p\<rparr>) (sort_key (\<lambda>e. number (snd e)) es0)"
    and "lcount q = length es0"
  shows "lenqueue_all es q =
           Returns ()
             \<lparr>chain = map (\<lambda>(v, p). \<lparr>ldata = v, lpriority = p\<rparr>)
                        (sort_key (\<lambda>e. number (snd e)) (es0 @ es)),
              lcount = length (es0 @ es)\<rparr>"
  using assms
proof (induction es arbitrary: q es0)
  case Nil
  then show ?case by simp
next
  case (Cons e es)
  obtain v p where e: "e = (v, p)" by (cases e)
  let ?cell = "\<lambda>(v, p). \<lparr>ldata = v, lpriority = p\<rparr>"
  let ?key = "\<lambda>e. number (snd e)"
  let ?q1 = "\<lparr>chain = map ?cell (sort_key ?key (es0 @ [e])), lcount = length (es0 @ [e])\<rparr>"
  from Cons.prems(2) e have p: "p \<noteq> NaN" and es: "numbers es"
    by (simp_all add: numbers_def)
  have n: "lnumbers (chain q)"
    using Cons.prems(1,3) by (auto simp: lnumbers_def numbers_def list_all_iff)
  have s: "sorted (map lkey (chain q))"
    using Cons.prems(3) sorted_sort_key [of ?key es0]
    by (simp add: comp_def case_prod_unfold)
  have "lenqueue v p q = Returns () ?q1"
    using lenqueue_sorted [OF p n s, of v] Cons.prems(3,4) e
    by (simp add: sort_key_snoc takeWhile_map dropWhile_map comp_def case_prod_unfold)
  moreover have "lenqueue_all es ?q1 =
      Returns () \<lparr>chain = map ?cell (sort_key ?key ((es0 @ [e]) @ es)),
                  lcount = length ((es0 @ [e]) @ es)\<rparr>"
    using Cons.prems(1) p es e by (intro Cons.IH) (simp_all add: numbers_def)
  ultimately show ?case using e by simp
qed

lemma list_drain_stable_sorted:
  "numbers es \<Longrightarrow>
   ldrain_after es = Returns (map fst (sort_key (\<lambda>e. number (snd e)) es)) lempty"
  using lenqueue_all_sorted [of "[]" es lempty]
  by (simp add: ldrain_after_def lempty_def ldrain_returns comp_def case_prod_unfold numbers_def)

subsection \<open>Copies and display\<close>

text \<open>
  Copying a sorted chain of numbers cell by cell rebuilds the same chain, and the display
  writes the values of the chain in order, a blank after each, and a line feed.
\<close>

lemma lenqueue_cells_sorted:
  "lnumbers (chain q @ cs) \<Longrightarrow> sorted (map lkey (chain q @ cs)) \<Longrightarrow>
   lenqueue_cells cs q = Returns () \<lparr>chain = chain q @ cs, lcount = lcount q + length cs\<rparr>"
proof (induction cs arbitrary: q)
  case Nil
  then show ?case by simp
next
  case (Cons c cs)
  let ?K = "\<lambda>n. lkey n \<le> lkey c"
  let ?q1 = "\<lparr>chain = chain q @ [c], lcount = Suc (lcount q)\<rparr>"
  from Cons.prems have s: "sorted (map lkey (chain q))" and "\<forall>n \<in> set (chain q). ?K n"
    and n: "lnumbers (chain q)" and c: "lpriority c \<noteq> NaN"
    by (auto simp: sorted_append lnumbers_def)
  then have "takeWhile ?K (chain q) @ c # dropWhile ?K (chain q) = chain q @ [c]"
    by simp
  with lenqueue_sorted [OF c n s, of "ldata c"]
  have "lenqueue (ldata c) (lpriority c) q = Returns () ?q1" by (simp add: lcell_eta)
  moreover have "lenqueue_cells cs ?q1
      = Returns () \<lparr>chain = chain ?q1 @ cs, lcount = lcount ?q1 + length cs\<rparr>"
    using Cons.prems by (intro Cons.IH) simp_all
  ultimately show ?case by simp
qed

lemma lcopy_same:
  "lnumbers (chain src) \<Longrightarrow> sorted (map lkey (chain src)) \<Longrightarrow>
   lcount src = length (chain src) \<Longrightarrow> lcopy src = Returns () src"
  using lenqueue_cells_sorted [of "\<lparr>chain = [], lcount = 0\<rparr>" "chain src"]
  by (simp add: lcopy_def deepCopy_def)

lemma lassign_copies:
  assumes "lcount this = length (chain this)"
    and "lnumbers (chain src)" and "sorted (map lkey (chain src))"
    and "lcount src = length (chain src)"
  shows "lassign False this src = Returns src src" and "lassign True src src = Returns src src"
  using lcopy_same [OF assms(2-4)] lclear_returns [OF assms(1)]
  by (simp_all add: lassign_def lcopy_def)

lemma ldisplay_text:
  assumes "lnumbers (chain q)" and "sorted (map lkey (chain q))"
    and "lcount q = length (chain q)"
  shows "ldisplay render os q
     = Returns () (os @ concat (map (\<lambda>c. render (ldata c) @ '' '') (chain q)) @ [CHR 0x0A])"
  using lwrite_values_text [OF assms(3), of "lcount q" render os] assms(3)
  by (simp add: ldisplay_def lcopy_same [OF assms] lsize_def)

text \<open>Every queue a client can hold has a chain of \<^verbatim>\<open>count\<close> cells.\<close>

lemma lreachable_count:
  "lreachable q \<Longrightarrow> lcount q = length (chain q)"
proof (induction rule: lreachable.induct)
  case constructed
  show ?case by (simp add: lempty_def)
next
  case (enqueued q v p q')
  with lenqueue_outcome [of v p q] show ?case by auto
next
  case (dequeued q v q')
  have "lcount q \<noteq> 0"
    using dequeued.hyps(2) by (auto simp: ldequeue_def lisEmpty_def split: if_splits)
  with dequeued ldequeue_returns [of q] show ?case by auto
next
  case (cleared q q')
  then show ?case by (auto simp: lclear_returns)
next
  case (copied src q')
  then show ?case
    using lenqueue_cells_count [of "chain src" "\<lparr>chain = [], lcount = 0\<rparr>" q']
    by (simp add: lcopy_def deepCopy_def)
next
  case (assigned q src same r q')
  then show ?case
    using lenqueue_cells_count [of "chain src" "\<lparr>chain = [], lcount = 0\<rparr>" q']
    by (cases same) (auto simp: lassign_def deepCopy_def split: outcome.splits)
qed

section \<open>The heap implementation\<close>

subsection \<open>The two loops\<close>

text \<open>
  With an odd count the guard of the sift-down loop leaves room for the right child. The
  loop either stops or goes on from one of the two children after an exchange; it keeps
  the length of the array, and a cell at the end of the array that equals the cell at
  \<^verbatim>\<open>anchor\<close> is still there when the loop ends.
\<close>

lemma odd_guard:
  "odd (count::nat) \<Longrightarrow> 2 * anchor + 2 \<le> count \<Longrightarrow> 2 * anchor + 2 < count"
  by presburger

lemma sift_down_stop:
  "\<not> 2 * anchor + 2 \<le> count \<Longrightarrow> sift_down pq count anchor = Returns () pq"
  by (subst sift_down.simps) simp

lemma sift_down_raises:
  "2 * anchor + 2 \<le> count \<Longrightarrow> \<not> rightchild anchor < length pq \<Longrightarrow>
   sift_down pq count anchor = Raises VectorIndexError pq"
  by (subst sift_down.simps) (simp add: vget_def rightchild_def split: option.splits)

lemma sift_down_step:
  assumes "2 * anchor + 2 \<le> count" and "rightchild anchor < length pq"
  shows "sift_down pq count anchor = Returns () pq
       \<or> sift_down pq count anchor
           = sift_down (pq[anchor := pq ! leftchild anchor, leftchild anchor := pq ! anchor])
               count (leftchild anchor)
       \<or> sift_down pq count anchor
           = sift_down (pq[anchor := pq ! rightchild anchor, rightchild anchor := pq ! anchor])
               count (rightchild anchor)"
proof -
  have "anchor < length pq" "leftchild anchor < length pq"
    using assms(2) by (simp_all add: leftchild_def rightchild_def)
  then show ?thesis
    using assms by (simp add: sift_down.simps [of pq count anchor] vget_def)
qed

lemma sift_down_returns:
  "odd count \<Longrightarrow> count \<le> length pq \<Longrightarrow>
   \<exists>pq'. sift_down pq count anchor = Returns () pq' \<and> length pq' = length pq"
proof (induction "count - anchor" arbitrary: pq anchor rule: less_induct)
  case less
  show ?case
  proof (cases "2 * anchor + 2 \<le> count")
    case False
    then show ?thesis by (simp add: sift_down_stop)
  next
    case True
    let ?L = "pq[anchor := pq ! leftchild anchor, leftchild anchor := pq ! anchor]"
    let ?R = "pq[anchor := pq ! rightchild anchor, rightchild anchor := pq ! anchor]"
    from odd_guard [OF less.prems(1) True] less.prems(2)
    have r: "rightchild anchor < length pq" by (simp add: rightchild_def)
    have l: "count - leftchild anchor < count - anchor" "count - rightchild anchor < count - anchor"
      using True by (simp_all add: leftchild_def rightchild_def)
    have IL: "\<exists>pq'. sift_down ?L count (leftchild anchor) = Returns () pq' \<and> length pq' = length pq"
      using less.hyps [OF l(1) less.prems(1), of ?L] less.prems(2) by simp
    have IR: "\<exists>pq'. sift_down ?R count (rightchild anchor) = Returns () pq' \<and> length pq' = length pq"
      using less.hyps [OF l(2) less.prems(1), of ?R] less.prems(2) by simp
    from sift_down_step [OF True r] IL IR show ?thesis
      by (elim disjE) simp_all
  qed
qed

lemma sift_down_keeps_last:
  "odd count \<Longrightarrow> count = length pq \<Longrightarrow> pq ! anchor = pq ! (count - 1) \<Longrightarrow>
   sift_down pq count anchor = Returns () pq' \<Longrightarrow> pq' ! (count - 1) = pq ! (count - 1)"
proof (induction "count - anchor" arbitrary: pq anchor rule: less_induct)
  case less
  show ?case
  proof (cases "2 * anchor + 2 \<le> count")
    case False
    then show ?thesis using less.prems by (simp add: sift_down_stop)
  next
    case True
    let ?L = "pq[anchor := pq ! leftchild anchor, leftchild anchor := pq ! anchor]"
    let ?R = "pq[anchor := pq ! rightchild anchor, rightchild anchor := pq ! anchor]"
    note g = odd_guard [OF less.prems(1) True]
    with less.prems(2) have r: "rightchild anchor < length pq" by (simp add: rightchild_def)
    have l: "count - leftchild anchor < count - anchor" "count - rightchild anchor < count - anchor"
      using True by (simp_all add: leftchild_def rightchild_def)
    have "leftchild anchor \<noteq> count - 1"
      using less.prems(1) unfolding leftchild_def by presburger
    moreover have "anchor \<noteq> count - 1" "anchor < length pq" "leftchild anchor < length pq"
      using g less.prems(2) by (simp_all add: leftchild_def)
    ultimately have L: "?L ! leftchild anchor = ?L ! (count - 1)"
       "?L ! (count - 1) = pq ! (count - 1)" "count = length ?L"
      using less.prems(2,3) by simp_all
    have R: "?R ! rightchild anchor = ?R ! (count - 1)" "?R ! (count - 1) = pq ! (count - 1)"
       "count = length ?R"
      using \<open>anchor \<noteq> count - 1\<close> \<open>anchor < length pq\<close> r less.prems(2,3)
      by (simp_all add: nth_list_update)
    have IL: "sift_down ?L count (leftchild anchor) = Returns () pq' \<Longrightarrow> ?thesis"
      using less.hyps [OF l(1) less.prems(1) L(3) L(1)] L(2) by simp
    have IR: "sift_down ?R count (rightchild anchor) = Returns () pq' \<Longrightarrow> ?thesis"
      using less.hyps [OF l(2) less.prems(1) R(3) R(1)] R(2) by simp
    from sift_down_step [OF True r] less.prems(4) IL IR show ?thesis
      by (elim disjE) simp_all
  qed
qed

lemma sift_up_returns:
  "anchor < length pq \<Longrightarrow>
   \<exists>pq'. sift_up pq anchor = Returns () pq' \<and> length pq' = length pq"
proof (induction anchor arbitrary: pq rule: less_induct)
  case (less anchor)
  show ?case
  proof (cases "anchor = 0")
    case True
    then show ?thesis by (subst sift_up.simps) simp
  next
    case False
    then have p: "parent anchor < anchor" by (simp add: parent_def)
    with less.prems have pl: "parent anchor < length pq" by simp
    let ?S = "pq[anchor := pq ! parent anchor, parent anchor := pq ! anchor]"
    have I: "\<exists>pq'. sift_up ?S (parent anchor) = Returns () pq' \<and> length pq' = length pq"
      using less.IH [OF p, of ?S] pl by simp
    show ?thesis
      using I less.prems pl False
      by (subst sift_up.simps) (simp add: vget_def)
  qed
qed

subsection \<open>The methods on a queue whose array holds \<^verbatim>\<open>count\<close> cells\<close>

lemma move_last_to_root_returns:
  assumes "length (pqueue q) = hcount q" and "2 \<le> hcount q"
  shows "\<exists>q1. move_last_to_root q = Returns (even (hcount q - 1)) q1
             \<and> odd (hcount q1)
             \<and> length (pqueue q1) = hcount q1
             \<and> hcount q1 = (if even (hcount q - 1) then hcount q else hcount q - 1)
             \<and> (even (hcount q - 1) \<longrightarrow> last (pqueue q1) = pqueue q1 ! 0)"
proof -
  let ?pq = "butlast ((pqueue q)[0 := pqueue q ! (hcount q - 1)])"
  have len: "length ?pq = hcount q - 1" using assms by simp
  have g: "vget (pqueue q) (hcount q - 1) = Some (pqueue q ! (hcount q - 1))"
    using assms by (simp add: vget_def)
  have rb: "removeBack ((pqueue q)[0 := pqueue q ! (hcount q - 1)]) = Some ?pq"
    using assms by (auto simp: removeBack_def)
  have g0: "vget ?pq 0 = Some (?pq ! 0)"
    using assms len by (simp add: vget_def)
  show ?thesis
  proof (cases "even (hcount q - 1)")
    case True
    then have "move_last_to_root q
        = Returns True \<lparr>pqueue = ?pq @ [?pq ! 0], hcount = hcount q - 1 + 1\<rparr>"
      using g rb g0 by (simp add: move_last_to_root_def Let_def even_iff_mod_2_eq_zero)
    moreover have "(?pq @ [?pq ! 0]) ! 0 = ?pq ! 0"
      using assms len by (simp add: nth_append)
    ultimately show ?thesis using True assms len by simp
  next
    case False
    then have "move_last_to_root q = Returns False \<lparr>pqueue = ?pq, hcount = hcount q - 1\<rparr>"
      using g rb by (simp add: move_last_to_root_def Let_def even_iff_mod_2_eq_zero)
    then show ?thesis using False len by simp
  qed
qed

lemma hdequeue_single:
  assumes "length (pqueue q) = hcount q" and "hcount q = 1"
  shows "hdequeue q = Returns (hdata (pqueue q ! 0)) \<lparr>pqueue = [], hcount = 0\<rparr>"
proof -
  from assms obtain c where "pqueue q = [c]"
    by (cases "pqueue q") auto
  with assms show ?thesis
    by (simp add: hdequeue_def hisEmpty_def vget_def removeBack_def)
qed

lemma hdequeue_steps:
  assumes "length (pqueue q) = hcount q" and "2 \<le> hcount q"
  shows "\<exists>q1 pq2.
           move_last_to_root q = Returns (even (hcount q - 1)) q1
         \<and> sift_down (pqueue q1) (hcount q1) 0 = Returns () pq2
         \<and> length pq2 = hcount q1
         \<and> hcount q1 = (if even (hcount q - 1) then hcount q else hcount q - 1)
         \<and> (even (hcount q - 1) \<longrightarrow>
               last (pqueue q1) = pqueue q1 ! 0 \<and> last pq2 = last (pqueue q1))
         \<and> hdequeue q =
             Returns (hdata (pqueue q ! 0))
               (if even (hcount q - 1) then \<lparr>pqueue = butlast pq2, hcount = hcount q1 - 1\<rparr>
                else q1\<lparr>pqueue := pq2\<rparr>)"
proof -
  from move_last_to_root_returns [OF assms] obtain q1 where
    m: "move_last_to_root q = Returns (even (hcount q - 1)) q1"
    and o: "odd (hcount q1)" and l: "length (pqueue q1) = hcount q1"
    and c: "hcount q1 = (if even (hcount q - 1) then hcount q else hcount q - 1)"
    and d: "even (hcount q - 1) \<longrightarrow> last (pqueue q1) = pqueue q1 ! 0"
    by blast
  from sift_down_returns [OF o, of "pqueue q1" 0] l obtain pq2 where
    s: "sift_down (pqueue q1) (hcount q1) 0 = Returns () pq2" and l2: "length pq2 = hcount q1"
    by auto
  have g: "vget (pqueue q) 0 = Some (pqueue q ! 0)"
    using assms by (simp add: vget_def)
  have k: "last pq2 = last (pqueue q1)" and ne: "pq2 \<noteq> []" if e: "even (hcount q - 1)"
  proof -
    from e c assms l l2 show ne: "pq2 \<noteq> []" by auto
    from e c assms l have ne1: "pqueue q1 \<noteq> []" by auto
    from e d have "pqueue q1 ! 0 = pqueue q1 ! (hcount q1 - 1)"
      using ne1 l by (simp add: last_conv_nth)
    from sift_down_keeps_last [OF o l [symmetric] this s]
    show "last pq2 = last (pqueue q1)"
      using ne ne1 l l2 by (simp add: last_conv_nth)
  qed
  have "hdequeue q =
          Returns (hdata (pqueue q ! 0))
            (if even (hcount q - 1) then \<lparr>pqueue = butlast pq2, hcount = hcount q1 - 1\<rparr>
             else q1\<lparr>pqueue := pq2\<rparr>)"
    using assms g m s ne by (simp add: hdequeue_def hisEmpty_def removeBack_def)
  with m s l2 c d k show ?thesis by blast
qed

lemma hdequeue_returns:
  assumes "length (pqueue q) = hcount q" and "hcount q \<noteq> 0"
  shows "\<exists>q'. hdequeue q = Returns (hdata (pqueue q ! 0)) q'
            \<and> length (pqueue q') = hcount q' \<and> hcount q' = hcount q - 1"
proof (cases "hcount q = 1")
  case True
  from hdequeue_single [OF assms(1) True] True show ?thesis by simp
next
  case False
  with assms have "2 \<le> hcount q" by simp
  from hdequeue_steps [OF assms(1) this] show ?thesis
    by (auto split: if_splits)
qed

lemma hpeek_returns:
  "hcount h = length (pqueue h) \<Longrightarrow> hcount h \<noteq> 0 \<Longrightarrow>
   hpeek h = Returns (hdata (pqueue h ! 0)) h"
  by (simp add: hpeek_def hisEmpty_def vget_def)

lemma henqueue_returns:
  assumes "hcount h = length (pqueue h)"
  shows "\<exists>h'. henqueue v p t h = Returns () h'
      \<and> hcount h' = length (pqueue h') \<and> hcount h' = Suc (hcount h)"
proof -
  let ?pq = "pqueue h @ [\<lparr>hdata = v, hpriority = p, hrank = t\<rparr>]"
  from sift_up_returns [of "hcount h" ?pq] assms obtain pq' where
    "sift_up ?pq (hcount h) = Returns () pq'" "length pq' = Suc (length (pqueue h))"
    by auto
  with assms show ?thesis by (simp add: henqueue_def)
qed

lemma hwrite_values_returns:
  "length (pqueue tmp) = hcount tmp \<Longrightarrow> n \<le> hcount tmp \<Longrightarrow>
   \<exists>os'. hwrite_values render n tmp os = Returns () os'"
proof (induction n arbitrary: tmp os)
  case 0
  then show ?case by simp
next
  case (Suc n)
  from Suc.prems have ne: "hcount tmp \<noteq> 0" by auto
  from hdequeue_returns [OF Suc.prems(1) ne] obtain t where
    t: "hdequeue tmp = Returns (hdata (pqueue tmp ! 0)) t" "length (pqueue t) = hcount t"
       "hcount t = hcount tmp - 1" by blast
  with Suc.IH [of t] Suc.prems show ?case by simp
qed

lemma hdisplay_returns:
  "length (pqueue h) = hcount h \<Longrightarrow> \<exists>os'. hdisplay render os h = Returns () os'"
  using hwrite_values_returns [of "hcopy (hcopy h)" "hcount h" render os]
  by (auto simp: hdisplay_def hcopy_def hsize_def)

lemma hcopy_same: "hcopy src = src"
  by (simp add: hcopy_def)

text \<open>Every queue a client can hold has an array of \<^verbatim>\<open>count\<close> cells.\<close>

lemma hreachable_count:
  "hreachable q \<Longrightarrow> length (pqueue q) = hcount q"
proof (induction rule: hreachable.induct)
  case constructed
  show ?case by (simp add: hempty_def)
next
  case (enqueued q v p t q')
  with henqueue_returns [of q v p t] show ?case by auto
next
  case (dequeued q v q')
  have "hcount q \<noteq> 0"
    using dequeued.hyps(2) by (auto simp: hdequeue_def hisEmpty_def split: if_splits)
  with dequeued hdequeue_returns [of q] show ?case by auto
next
  case (copied src)
  then show ?case by (simp add: hcopy_def)
next
  case (assigned q src)
  then show ?case by (simp add: hassign_def)
qed

section \<open>The claims\<close>

lemmas heap_eval =
  henqueue_def hempty_def sift_up.simps vget_def parent_def hdrain.simps hdequeue_def
  hisEmpty_def move_last_to_root_def removeBack_def sift_down.simps leftchild_def
  rightchild_def Let_def hdrain_after_def

text \<open>
  C1 (first in, first out among equal priorities, both implementations). The heap
  implementation does not keep it. Five entries are enqueued at the strictly increasing
  clock readings 0 to 4: A and D and E with priority 0, B and then C with priority 1.
  Draining returns C before B. The first \<^verbatim>\<open>dequeue\<close> moves E to the root, finds it tied
  in priority with its left child D and later in rank, and then picks the child to
  exchange by rank alone (line 374): C, of priority 1, goes to the root above D and E.
\<close>

theorem heap_equal_priorities_out_of_order:
  "hdrain_after [(''A'', Num 0, 0), (''B'', Num 1, 1), (''C'', Num 1, 2), (''D'', Num 0, 3), (''E'', Num 0, 4)]
     = Returns [''A'', ''C'', ''D'', ''E'', ''B''] hempty"
  by (simp add: heap_eval)

text \<open>
  The same failure without the sift-down's choice by rank: three entries of one priority
  enqueued within one clock reading leave as A, C, B.
\<close>

lemma heap_clock_tie_out_of_order:
  "hdrain_after [(''A'', Num 1, 7), (''B'', Num 1, 7), (''C'', Num 1, 7)]
     = Returns [''A'', ''C'', ''B''] hempty"
  by (simp add: heap_eval)

text \<open>
  C2 (the tag stamped at enqueue time is strictly increasing in the heap implementation).
  The tag is the reading of \<^verbatim>\<open>clock()\<close>: two calls of \<^verbatim>\<open>enqueue\<close> that see the same
  reading, here 7, stamp the same rank on both cells.
\<close>

theorem heap_equal_clock_equal_rank:
  "henqueue_all [(''A'', Num 1, 7), (''B'', Num 1, 7)] hempty
     = Returns ()
         \<lparr>pqueue = [\<lparr>hdata = ''A'', hpriority = Num 1, hrank = 7\<rparr>,
                    \<lparr>hdata = ''B'', hpriority = Num 1, hrank = 7\<rparr>],
          hcount = 2\<rparr>"
  by (simp add: heap_eval)

text \<open>
  C3 (draining after a sequence of enqueues returns non-decreasing priorities, both
  implementations). The heap implementation does not: each entry below carries the
  number of its priority as its value, the clock readings are 0 to 4, and the values
  returned are 0, 0, 1, 0, 0.
\<close>

theorem heap_drain_priorities_decrease:
  "hdrain_after [(0, Num 0, 0), (0, Num 0, 1), (1, Num 1, 2), (0, Num 0, 3), (0, Num 0, 4)]
     = Returns [0, 0, 1, 0, 0] hempty
   \<and> \<not> sorted [0, 0, 1, 0, 0 :: real]"
  by (simp add: heap_eval)

text \<open>
  C4. In the heap implementation, a \<^verbatim>\<open>dequeue\<close> on a non-empty queue (whose array holds
  \<^verbatim>\<open>count\<close> cells) returns the root's value and leaves an array whose length equals
  the count, one less than before. When the decremented count is even, so that the
  fix-up appends a copy of the relocated root, that copy is still the last cell of the
  array after the sift-down loop, and the array \<^verbatim>\<open>dequeue\<close> leaves is the array after
  the loop without it.
\<close>

theorem hdequeue_array_length:
  assumes "length (pqueue q) = hcount q" and "hcount q \<noteq> 0"
  shows "\<exists>q'. hdequeue q = Returns (hdata (pqueue q ! 0)) q'
      \<and> length (pqueue q') = hcount q'
      \<and> hcount q' = hcount q - 1
      \<and> (2 \<le> hcount q \<and> even (hcount q - 1) \<longrightarrow>
           (\<exists>q1 pq2. move_last_to_root q = Returns True q1
              \<and> last (pqueue q1) = pqueue q1 ! 0
              \<and> sift_down (pqueue q1) (hcount q1) 0 = Returns () pq2
              \<and> last pq2 = last (pqueue q1)
              \<and> pqueue q' = butlast pq2))"
proof (cases "2 \<le> hcount q")
  case False
  with assms have "hcount q = 1" by simp
  from hdequeue_single [OF assms(1) this] this False show ?thesis by simp
next
  case True
  from hdequeue_steps [OF assms(1) True] show ?thesis
    by (cases "even (hcount q - 1)") auto
qed

theorem hdequeue_array_length_witness:
  "length (pqueue \<lparr>pqueue = [\<lparr>hdata = ''A'', hpriority = Num 1, hrank = 0\<rparr>,
                           \<lparr>hdata = ''B'', hpriority = Num 2, hrank = 1\<rparr>,
                           \<lparr>hdata = ''C'', hpriority = Num 3, hrank = 2\<rparr>], hcount = 3\<rparr>) = 3
   \<and> (\<exists>q'. hdequeue \<lparr>pqueue = [\<lparr>hdata = ''A'', hpriority = Num 1, hrank = 0\<rparr>,
                           \<lparr>hdata = ''B'', hpriority = Num 2, hrank = 1\<rparr>,
                           \<lparr>hdata = ''C'', hpriority = Num 3, hrank = 2\<rparr>], hcount = 3\<rparr>
              = Returns ''A'' q'
      \<and> length (pqueue q') = hcount q'
      \<and> hcount q' = 2
      \<and> (\<exists>q1 pq2. move_last_to_root \<lparr>pqueue = [\<lparr>hdata = ''A'', hpriority = Num 1, hrank = 0\<rparr>,
                           \<lparr>hdata = ''B'', hpriority = Num 2, hrank = 1\<rparr>,
                           \<lparr>hdata = ''C'', hpriority = Num 3, hrank = 2\<rparr>], hcount = 3\<rparr> = Returns True q1
              \<and> last (pqueue q1) = pqueue q1 ! 0
              \<and> sift_down (pqueue q1) (hcount q1) 0 = Returns () pq2
              \<and> last pq2 = last (pqueue q1)
              \<and> pqueue q' = butlast pq2))"
  using hdequeue_array_length
    [of "\<lparr>pqueue = [\<lparr>hdata = ''A'', hpriority = Num 1, hrank = 0\<rparr>,
                           \<lparr>hdata = ''B'', hpriority = Num 2, hrank = 1\<rparr>,
                           \<lparr>hdata = ''C'', hpriority = Num 3, hrank = 2\<rparr>], hcount = 3\<rparr>"]
  by simp

text \<open>
  C5 (the heap-order invariant holds after every enqueue and every dequeue). After the
  five enqueues of C1 the array is heap ordered; after the first \<^verbatim>\<open>dequeue\<close> the root C
  has priority 1 and both its children, D and E, have priority 0.
\<close>

theorem heap_order_broken_by_dequeue:
  "henqueue_all [(''A'', Num 0, 0), (''B'', Num 1, 1), (''C'', Num 1, 2), (''D'', Num 0, 3), (''E'', Num 0, 4)] hempty
     = Returns ()
         \<lparr>pqueue = [\<lparr>hdata = ''A'', hpriority = Num 0, hrank = 0\<rparr>,
                    \<lparr>hdata = ''D'', hpriority = Num 0, hrank = 3\<rparr>,
                    \<lparr>hdata = ''C'', hpriority = Num 1, hrank = 2\<rparr>,
                    \<lparr>hdata = ''B'', hpriority = Num 1, hrank = 1\<rparr>,
                    \<lparr>hdata = ''E'', hpriority = Num 0, hrank = 4\<rparr>],
          hcount = 5\<rparr>
   \<and> heap_ordered [\<lparr>hdata = ''A'', hpriority = Num 0, hrank = 0\<rparr>,
                   \<lparr>hdata = ''D'', hpriority = Num 0, hrank = 3\<rparr>,
                   \<lparr>hdata = ''C'', hpriority = Num 1, hrank = 2\<rparr>,
                   \<lparr>hdata = ''B'', hpriority = Num 1, hrank = 1\<rparr>,
                   \<lparr>hdata = ''E'', hpriority = Num 0, hrank = 4\<rparr>]
   \<and> hdequeue
         \<lparr>pqueue = [\<lparr>hdata = ''A'', hpriority = Num 0, hrank = 0\<rparr>,
                    \<lparr>hdata = ''D'', hpriority = Num 0, hrank = 3\<rparr>,
                    \<lparr>hdata = ''C'', hpriority = Num 1, hrank = 2\<rparr>,
                    \<lparr>hdata = ''B'', hpriority = Num 1, hrank = 1\<rparr>,
                    \<lparr>hdata = ''E'', hpriority = Num 0, hrank = 4\<rparr>],
          hcount = 5\<rparr>
     = Returns ''A''
         \<lparr>pqueue = [\<lparr>hdata = ''C'', hpriority = Num 1, hrank = 2\<rparr>,
                    \<lparr>hdata = ''D'', hpriority = Num 0, hrank = 3\<rparr>,
                    \<lparr>hdata = ''E'', hpriority = Num 0, hrank = 4\<rparr>,
                    \<lparr>hdata = ''B'', hpriority = Num 1, hrank = 1\<rparr>],
          hcount = 4\<rparr>
   \<and> \<not> heap_ordered [\<lparr>hdata = ''C'', hpriority = Num 1, hrank = 2\<rparr>,
                     \<lparr>hdata = ''D'', hpriority = Num 0, hrank = 3\<rparr>,
                     \<lparr>hdata = ''E'', hpriority = Num 0, hrank = 4\<rparr>,
                     \<lparr>hdata = ''B'', hpriority = Num 1, hrank = 1\<rparr>]"
  by (simp add: heap_eval heap_ordered_def not_greater_def upt_conv_Cons)

text \<open>
  C6 (\<^verbatim>\<open>dequeue\<close> and \<^verbatim>\<open>peek\<close> fail exactly on the empty queue and then change
  nothing; no other operation fails; both implementations). The list's \<^verbatim>\<open>enqueue\<close> does
  fail: on a queue of one cell, a NaN priority is neither \<^verbatim>\<open><\<close> the head's nor
  \<^verbatim>\<open>>=\<close> the tail's, so the last branch walks from the head and reads
  \<^verbatim>\<open>rank->link->priority\<close> with \<^verbatim>\<open>rank->link\<close> being \<^verbatim>\<open>NULL\<close>.
\<close>

theorem list_enqueue_nan_reads_null:
  "lenqueue_all [(''A'', Num 1), (''B'', NaN)] lempty
     = Raises NullDereference \<lparr>chain = [\<lparr>ldata = ''A'', lpriority = Num 1\<rparr>], lcount = 1\<rparr>"
  by (simp add: lenqueue_def lempty_def)

text \<open>
  The rest of C6 holds. On a list queue and on a heap queue whose count is the number of
  stored cells, \<^verbatim>\<open>dequeue\<close> and \<^verbatim>\<open>peek\<close> raise \<open>EmptyQueueError\<close> exactly when
  \<^verbatim>\<open>size()\<close> is 0, and then leave the queue as it was; otherwise they return. The
  heap's \<^verbatim>\<open>enqueue\<close> and display and the list's \<^verbatim>\<open>clear\<close> return, and so do the list's
  \<^verbatim>\<open>enqueue\<close>, copies, assignment and display when no priority involved is NaN.
\<close>

lemma failure_only_on_empty:
  assumes "lcount q = length (chain q)" and "hcount h = length (pqueue h)"
  shows "((ldequeue q = Raises EmptyQueueError q) = (lsize q = 0))
       \<and> ((lpeek q = Raises EmptyQueueError q) = (lsize q = 0))
       \<and> (lsize q \<noteq> 0 \<longrightarrow> (\<exists>v q'. ldequeue q = Returns v q') \<and> (\<exists>v. lpeek q = Returns v q))
       \<and> ((hdequeue h = Raises EmptyQueueError h) = (hsize h = 0))
       \<and> ((hpeek h = Raises EmptyQueueError h) = (hsize h = 0))
       \<and> (hsize h \<noteq> 0 \<longrightarrow> (\<exists>v h'. hdequeue h = Returns v h') \<and> (\<exists>v. hpeek h = Returns v h))
       \<and> (\<exists>h'. henqueue v p t h = Returns () h')
       \<and> (\<exists>os'. hdisplay render os h = Returns () os')
       \<and> (\<exists>q'. lclear q = Returns () q')
       \<and> (p \<noteq> NaN \<and> lnumbers (chain q) \<and> lnumbers (chain src) \<longrightarrow>
            (\<exists>q'. lenqueue v p q = Returns () q')
          \<and> (\<exists>q'. lcopy q = Returns () q')
          \<and> (\<exists>q'. lassign same q src = Returns q' q')
          \<and> (\<exists>os'. ldisplay render os q = Returns () os'))"
proof -
  have l0: "ldequeue q = Raises EmptyQueueError q" "lpeek q = Raises EmptyQueueError q"
    if "lsize q = 0"
    using that by (simp_all add: ldequeue_def lpeek_def lisEmpty_def lsize_def)
  have l1: "\<exists>v q'. ldequeue q = Returns v q'" "\<exists>v. lpeek q = Returns v q" if "lsize q \<noteq> 0"
    using that ldequeue_returns [OF assms(1)] lpeek_returns [OF assms(1)]
    by (simp_all add: lsize_def)
  have h0: "hdequeue h = Raises EmptyQueueError h" "hpeek h = Raises EmptyQueueError h"
    if "hsize h = 0"
    using that by (simp_all add: hdequeue_def hpeek_def hisEmpty_def hsize_def)
  have h1: "\<exists>v h'. hdequeue h = Returns v h'" "\<exists>v. hpeek h = Returns v h" if "hsize h \<noteq> 0"
    using that hdequeue_returns [OF assms(2) [symmetric]] hpeek_returns [OF assms(2)]
    by (auto simp: hsize_def)
  have a: "(ldequeue q = Raises EmptyQueueError q) = (lsize q = 0)"
    using l0(1) l1(1) by (cases "lsize q = 0") auto
  have b: "(lpeek q = Raises EmptyQueueError q) = (lsize q = 0)"
    using l0(2) l1(2) by (cases "lsize q = 0") auto
  have c: "(hdequeue h = Raises EmptyQueueError h) = (hsize h = 0)"
    using h0(1) h1(1) by (cases "hsize h = 0") auto
  have d: "(hpeek h = Raises EmptyQueueError h) = (hsize h = 0)"
    using h0(2) h1(2) by (cases "hsize h = 0") auto
  have f: "\<exists>h'. henqueue v p t h = Returns () h'"
    using henqueue_returns [OF assms(2), of v p t] by blast
  have g: "\<exists>q'. lclear q = Returns () q'"
    by (simp add: lclear_returns [OF assms(1)])
  note l = hdisplay_returns [OF assms(2) [symmetric], of render os]
  have n: "(\<exists>q'. lenqueue v p q = Returns () q')
          \<and> (\<exists>q'. lcopy q = Returns () q')
          \<and> (\<exists>q'. lassign same q src = Returns q' q')
          \<and> (\<exists>os'. ldisplay render os q = Returns () os')"
    if "p \<noteq> NaN" "lnumbers (chain q)" "lnumbers (chain src)"
    using that lenqueue_returns [of p q v] deepCopy_returns [of q]
      lassign_returns [OF assms(1), of src same] ldisplay_returns [of q render os]
    by (auto simp: lcopy_def)
  from a b l1 c d h1 f g l n show ?thesis by blast
qed

text \<open>
  C7 as stated (both implementations expose the same operations, \<^verbatim>\<open>clear()\<close> included)
  does not hold of the headers: the list class declares \<^verbatim>\<open>clear\<close>, the heap class does
  not.
\<close>

theorem clear_only_in_list:
  "''clear'' \<in> set list_methods \<and> ''clear'' \<notin> set heap_methods"
  by (simp add: list_methods_def heap_methods_def)

text \<open>
  C7, amended. The list implementation's \<^verbatim>\<open>clear()\<close>, called on a queue whose count is
  the number of chained cells, returns and leaves the empty queue: \<^verbatim>\<open>size()\<close> is 0 and a
  following \<^verbatim>\<open>dequeue\<close> raises \<open>EmptyQueueError\<close>. The heap class declares the public
  members of the list class except \<^verbatim>\<open>clear\<close>.
\<close>

theorem lclear_empties:
  assumes "lcount q = length (chain q)"
  shows "\<exists>q'. lclear q = Returns () q'
            \<and> q' = lempty
            \<and> lsize q' = 0
            \<and> ldequeue q' = Raises EmptyQueueError q'
            \<and> heap_methods = filter (\<lambda>m. m \<noteq> ''clear'') list_methods"
  using lclear_returns [OF assms]
  by (simp add: lempty_def lsize_def ldequeue_def lisEmpty_def heap_methods_def list_methods_def)

theorem lclear_empties_witness:
  "lcount \<lparr>chain = [\<lparr>ldata = ''A'', lpriority = Num 1\<rparr>, \<lparr>ldata = ''B'', lpriority = Num 2\<rparr>], lcount = 2\<rparr>
     = length (chain \<lparr>chain = [\<lparr>ldata = ''A'', lpriority = Num 1\<rparr>, \<lparr>ldata = ''B'', lpriority = Num 2\<rparr>], lcount = 2\<rparr>)
   \<and> (\<exists>q'. lclear \<lparr>chain = [\<lparr>ldata = ''A'', lpriority = Num 1\<rparr>, \<lparr>ldata = ''B'', lpriority = Num 2\<rparr>], lcount = 2\<rparr>
              = Returns () q'
            \<and> q' = lempty
            \<and> lsize q' = 0
            \<and> ldequeue q' = Raises EmptyQueueError q')"
  using lclear_empties
    [of "\<lparr>chain = [\<lparr>ldata = ''A'', lpriority = Num 1\<rparr>, \<lparr>ldata = ''B'', lpriority = Num 2\<rparr>], lcount = 2\<rparr>"]
  by simp

text \<open>
  C8 (copy construction and assignment give an independent queue with the same contents;
  an assignment returns the queue itself; both implementations). The heap's
  \<^verbatim>\<open>operator=\<close> leaves the receiver equal to the source, but its body has no
  \<^verbatim>\<open>return\<close> statement: the call hands back no queue, where the list's \<^verbatim>\<open>operator=\<close>
  ends with \<^verbatim>\<open>return * this\<close>.
\<close>

theorem heap_assign_no_result:
  "hassign this src = (None, src)"
  by (simp add: hassign_def)

text \<open>
  C9 (display renders the contents in priority-then-insertion order, both
  implementations). On the heap the five entries of C1 are written as A C D E B: C, of
  priority 1, stands before D and E, of priority 0, and before B, enqueued before it with
  the same priority.
\<close>

theorem heap_display_out_of_order:
  "hdisplay (\<lambda>v. v) []
     \<lparr>pqueue = [\<lparr>hdata = ''A'', hpriority = Num 0, hrank = 0\<rparr>,
                \<lparr>hdata = ''D'', hpriority = Num 0, hrank = 3\<rparr>,
                \<lparr>hdata = ''C'', hpriority = Num 1, hrank = 2\<rparr>,
                \<lparr>hdata = ''B'', hpriority = Num 1, hrank = 1\<rparr>,
                \<lparr>hdata = ''E'', hpriority = Num 0, hrank = 4\<rparr>],
      hcount = 5\<rparr>
   = Returns () (''A C D E B '' @ [CHR 0x0A])"
  by code_simp

text \<open>
  C10. In \<^verbatim>\<open>dequeue\<close> of the heap implementation, on a queue whose array holds
  \<^verbatim>\<open>count\<close> cells, at least two: after the last cell is moved to the root and the
  completeness fix-up is done, the count is odd and equals the array's length. So whenever
  the guard \<^verbatim>\<open>count>=2*anchor+2\<close> holds, \<^verbatim>\<open>rightchild(anchor)\<close> is at most
  \<^verbatim>\<open>count-1\<close>, and the reads at \<^verbatim>\<open>anchor\<close>, \<^verbatim>\<open>leftchild(anchor)\<close> and
  \<^verbatim>\<open>rightchild(anchor)\<close> succeed on every array of that length; the loop keeps the
  length and ends without a refused index.
\<close>

theorem sift_down_reads_in_bounds:
  assumes "length (pqueue q) = hcount q" and "2 \<le> hcount q"
  shows "\<exists>completed q1.
      move_last_to_root q = Returns completed q1
    \<and> odd (hcount q1)
    \<and> length (pqueue q1) = hcount q1
    \<and> (\<forall>anchor. 2 * anchor + 2 \<le> hcount q1 \<longrightarrow>
         rightchild anchor \<le> hcount q1 - 1
       \<and> (\<forall>pq. length pq = hcount q1 \<longrightarrow>
            vget pq anchor \<noteq> None \<and> vget pq (leftchild anchor) \<noteq> None
          \<and> vget pq (rightchild anchor) \<noteq> None))
    \<and> (\<exists>pq2. sift_down (pqueue q1) (hcount q1) 0 = Returns () pq2 \<and> length pq2 = hcount q1)"
proof -
  from move_last_to_root_returns [OF assms] obtain q1 where
    m: "move_last_to_root q = Returns (even (hcount q - 1)) q1"
    and o: "odd (hcount q1)" and l: "length (pqueue q1) = hcount q1"
    by blast
  have b: "rightchild anchor \<le> hcount q1 - 1
       \<and> (\<forall>pq. length pq = hcount q1 \<longrightarrow>
            vget pq anchor \<noteq> None \<and> vget pq (leftchild anchor) \<noteq> None
          \<and> vget pq (rightchild anchor) \<noteq> None)"
    if "2 * anchor + 2 \<le> hcount q1" for anchor
    using odd_guard [OF o that] by (simp add: vget_def leftchild_def rightchild_def)
  from sift_down_returns [OF o, of "pqueue q1" 0] l
  have "\<exists>pq2. sift_down (pqueue q1) (hcount q1) 0 = Returns () pq2 \<and> length pq2 = hcount q1"
    by simp
  with m o l b show ?thesis by blast
qed

theorem sift_down_reads_in_bounds_witness:
  "length (pqueue \<lparr>pqueue = [\<lparr>hdata = ''A'', hpriority = Num 1, hrank = 0\<rparr>,
                           \<lparr>hdata = ''B'', hpriority = Num 2, hrank = 1\<rparr>,
                           \<lparr>hdata = ''C'', hpriority = Num 3, hrank = 2\<rparr>,
                           \<lparr>hdata = ''D'', hpriority = Num 4, hrank = 3\<rparr>], hcount = 4\<rparr>) = 4
   \<and> (\<exists>completed q1.
      move_last_to_root \<lparr>pqueue = [\<lparr>hdata = ''A'', hpriority = Num 1, hrank = 0\<rparr>,
                           \<lparr>hdata = ''B'', hpriority = Num 2, hrank = 1\<rparr>,
                           \<lparr>hdata = ''C'', hpriority = Num 3, hrank = 2\<rparr>,
                           \<lparr>hdata = ''D'', hpriority = Num 4, hrank = 3\<rparr>], hcount = 4\<rparr>
        = Returns completed q1
    \<and> odd (hcount q1)
    \<and> length (pqueue q1) = hcount q1
    \<and> (\<exists>pq2. sift_down (pqueue q1) (hcount q1) 0 = Returns () pq2 \<and> length pq2 = hcount q1))"
  using sift_down_reads_in_bounds
    [of "\<lparr>pqueue = [\<lparr>hdata = ''A'', hpriority = Num 1, hrank = 0\<rparr>,
                           \<lparr>hdata = ''B'', hpriority = Num 2, hrank = 1\<rparr>,
                           \<lparr>hdata = ''C'', hpriority = Num 3, hrank = 2\<rparr>,
                           \<lparr>hdata = ''D'', hpriority = Num 4, hrank = 3\<rparr>], hcount = 4\<rparr>"]
  by simp blast

end
